theory Spec2Isabelle
  imports Complex_Main "HOL-Library.Word" "HOL-Library.Sublist"
begin

text \<open>
  The program is a small web service. For a target URL it retrieves the robots policy of
  the URL's origin, refuses the request when the policy disallows the path, and otherwise
  fetches the page and extracts its title, up to five headings and up to ten links.

  The theory is a shallow embedding of the source file: \<open>fetchRobots\<close> with its parser and
  permission check, \<open>stripTags\<close>, \<open>extractData\<close>, and the handler of \<open>/scrape\<close>. The
  platform is modelled as far as the source uses it: strings with \<open>trim\<close>, \<open>split\<close>,
  \<open>startsWith\<close> and \<open>replace\<close>, the regular expressions of the source with the language's
  backtracking order, and the conversion of a string to a number. The network and the URL
  parser are parameters. An exception is a value: a computation that may throw returns
  \<open>exn + 'a\<close>, with \<open>Inl\<close> for the exception.
\<close>

section \<open>Strings of the host language\<close>

text \<open>
  A string of the program is a sequence of 16-bit code units. String literals of the
  source are ASCII and are written \<open>js ''...''\<close>.
\<close>

type_synonym code_unit = "16 word"
type_synonym jsstring = "code_unit list"

definition js :: "string \<Rightarrow> jsstring" where
  "js s = map of_char s"

text \<open>
  The code units that \<open>String.prototype.trim\<close>, the regular expression class \<open>\s\<close> and
  the numeric conversion treat as white space: the language's WhiteSpace and
  LineTerminator productions (TAB, LF, VT, FF, CR, SP, NBSP, the Unicode space separators,
  LS, PS and the byte order mark).
\<close>

definition isWhiteSpace :: "code_unit \<Rightarrow> bool" where
  "isWhiteSpace c \<longleftrightarrow>
     c = 0x09 \<or> c = 0x0A \<or> c = 0x0B \<or> c = 0x0C \<or> c = 0x0D \<or> c = 0x20 \<or> c = 0xA0 \<or>
     c = 0x1680 \<or> (0x2000 \<le> c \<and> c \<le> 0x200A) \<or> c = 0x2028 \<or> c = 0x2029 \<or>
     c = 0x202F \<or> c = 0x205F \<or> c = 0x3000 \<or> c = 0xFEFF"

definition trim :: "jsstring \<Rightarrow> jsstring" where
  "trim s = rev (dropWhile isWhiteSpace (rev (dropWhile isWhiteSpace s)))"

definition startsWith :: "jsstring \<Rightarrow> jsstring \<Rightarrow> bool" where
  "startsWith s d \<longleftrightarrow> length d \<le> length s \<and> take (length d) s = d"

text \<open>
  \<open>s.split(sep)\<close> for a separator of one code unit: \<open>cur\<close> is the piece being read.
  The result always has at least one piece. \<open>s.split(sep, limit)\<close> keeps the first
  \<open>limit\<close> pieces and drops the others.
\<close>

fun split_on :: "code_unit \<Rightarrow> jsstring \<Rightarrow> jsstring \<Rightarrow> jsstring list" where
  "split_on sep cur [] = [cur]"
| "split_on sep cur (c # cs) =
     (if c = sep then cur # split_on sep [] cs else split_on sep (cur @ [c]) cs)"

definition split_limit :: "code_unit \<Rightarrow> nat \<Rightarrow> jsstring \<Rightarrow> jsstring list" where
  "split_limit sep limit s = take limit (split_on sep [] s)"

text \<open>
  \<open>txt.split(/\r?\n/)\<close>: the separator is a line feed, together with the carriage return
  right before it when there is one. A carriage return alone separates nothing.
\<close>

fun split_lines :: "jsstring \<Rightarrow> jsstring \<Rightarrow> jsstring list" where
  "split_lines cur [] = [cur]"
| "split_lines cur (c # cs) =
     (if c = 0x0D \<and> cs \<noteq> [] \<and> hd cs = 0x0A then cur # split_lines [] (tl cs)
      else if c = 0x0A then cur # split_lines [] cs
      else split_lines (cur @ [c]) cs)"


section \<open>Regular expressions\<close>

text \<open>
  The regular expressions of the source use literal characters, character classes, the
  quantifiers \<open>*\<close>, \<open>+\<close>, \<open>?\<close> and \<open>*?\<close> on a single class, capture groups that are not
  themselves quantified, a backreference and the anchors \<open>^\<close> and \<open>$\<close>. A pattern is the
  list of its items in source order; a group is marked by \<open>Open g\<close> and \<open>Close g\<close>.
\<close>

datatype item =
    Chr code_unit
  | Cls "code_unit \<Rightarrow> bool"
  | Star "code_unit \<Rightarrow> bool"
  | Plus "code_unit \<Rightarrow> bool"
  | Lazy "code_unit \<Rightarrow> bool"
  | Opt "code_unit \<Rightarrow> bool"
  | Open nat
  | Close nat
  | Back nat
  | Bol
  | Eol

record regex =
  pattern :: "item list"
  ignoreCase :: bool

type_synonym captures = "(nat \<times> jsstring) list"

text \<open>
  Case folding under the \<open>i\<close> flag (without the \<open>u\<close> flag): a code unit is compared by
  its upper case, and a code unit outside ASCII never folds to an ASCII one. Every pattern
  character of the source, and every text a backreference of the source can hold, is
  ASCII, so folding \<open>a\<close> to \<open>z\<close> and leaving the other code units alone decides each
  comparison as the language does.
\<close>

definition canonicalize :: "bool \<Rightarrow> code_unit \<Rightarrow> code_unit" where
  "canonicalize ci c = (if ci \<and> 0x61 \<le> c \<and> c \<le> 0x7A then c - 0x20 else c)"

definition capture :: "captures \<Rightarrow> nat \<Rightarrow> jsstring" where
  "capture caps g = (case map_of caps g of None \<Rightarrow> [] | Some t \<Rightarrow> t)"

text \<open>
  The backtracking matcher. \<open>matchHere ci n ps rest marks caps\<close> matches the items
  \<open>ps\<close> at the start of \<open>rest\<close>, a suffix of a subject of length \<open>n\<close>, and returns what
  is left of the subject after the match with the captures, or \<open>None\<close>. Alternatives are
  tried in the language's order: a greedy quantifier takes a code unit first and gives it
  back when the rest of the pattern fails, a lazy one tries the rest of the pattern first.
  \<open>marks\<close> holds, for each group that was opened, the suffix where it started.
\<close>

fun matchHere ::
  "bool \<Rightarrow> nat \<Rightarrow> item list \<Rightarrow> jsstring \<Rightarrow> captures \<Rightarrow> captures \<Rightarrow> (jsstring \<times> captures) option"
where
  "matchHere ci n [] rest marks caps = Some (rest, caps)"
| "matchHere ci n (Chr x # ps) rest marks caps =
     (case rest of
        [] \<Rightarrow> None
      | c # cs \<Rightarrow>
          if canonicalize ci c = canonicalize ci x then matchHere ci n ps cs marks caps
          else None)"
| "matchHere ci n (Cls p # ps) rest marks caps =
     (case rest of
        [] \<Rightarrow> None
      | c # cs \<Rightarrow> if p c then matchHere ci n ps cs marks caps else None)"
| "matchHere ci n (Star p # ps) rest marks caps =
     (case rest of
        [] \<Rightarrow> matchHere ci n ps [] marks caps
      | c # cs \<Rightarrow>
          if p c then
            (case matchHere ci n (Star p # ps) cs marks caps of
               Some r \<Rightarrow> Some r
             | None \<Rightarrow> matchHere ci n ps (c # cs) marks caps)
          else matchHere ci n ps (c # cs) marks caps)"
| "matchHere ci n (Plus p # ps) rest marks caps =
     (case rest of
        [] \<Rightarrow> None
      | c # cs \<Rightarrow> if p c then matchHere ci n (Star p # ps) cs marks caps else None)"
| "matchHere ci n (Lazy p # ps) rest marks caps =
     (case matchHere ci n ps rest marks caps of
        Some r \<Rightarrow> Some r
      | None \<Rightarrow>
          (case rest of
             [] \<Rightarrow> None
           | c # cs \<Rightarrow> if p c then matchHere ci n (Lazy p # ps) cs marks caps else None))"
| "matchHere ci n (Opt p # ps) rest marks caps =
     (case rest of
        [] \<Rightarrow> matchHere ci n ps [] marks caps
      | c # cs \<Rightarrow>
          if p c then
            (case matchHere ci n ps cs marks caps of
               Some r \<Rightarrow> Some r
             | None \<Rightarrow> matchHere ci n ps (c # cs) marks caps)
          else matchHere ci n ps (c # cs) marks caps)"
| "matchHere ci n (Open g # ps) rest marks caps =
     matchHere ci n ps rest ((g, rest) # marks) caps"
| "matchHere ci n (Close g # ps) rest marks caps =
     (let start = capture marks g
      in matchHere ci n ps rest marks ((g, take (length start - length rest) start) # caps))"
| "matchHere ci n (Back g # ps) rest marks caps =
     (let t = capture caps g
      in if length t \<le> length rest \<and>
            map (canonicalize ci) (take (length t) rest) = map (canonicalize ci) t
         then matchHere ci n ps (drop (length t) rest) marks caps
         else None)"
| "matchHere ci n (Bol # ps) rest marks caps =
     (if length rest = n then matchHere ci n ps rest marks caps else None)"
| "matchHere ci n (Eol # ps) rest marks caps =
     (if rest = [] then matchHere ci n ps rest marks caps else None)"

text \<open>
  The leftmost match at or after a position: the position is given by the suffix \<open>rest\<close>
  of the subject. The result is the suffix where the match starts, the suffix after its
  end, and the captures.
\<close>

fun find_match ::
  "regex \<Rightarrow> nat \<Rightarrow> jsstring \<Rightarrow> (jsstring \<times> jsstring \<times> captures) option"
where
  "find_match re n [] =
     (case matchHere (ignoreCase re) n (pattern re) [] [] [] of
        None \<Rightarrow> None
      | Some (after, caps) \<Rightarrow> Some ([], after, caps))"
| "find_match re n (c # cs) =
     (case matchHere (ignoreCase re) n (pattern re) (c # cs) [] [] of
        None \<Rightarrow> find_match re n cs
      | Some (after, caps) \<Rightarrow> Some (c # cs, after, caps))"

text \<open>\<open>re.test(s)\<close> for a regular expression without the \<open>g\<close> flag.\<close>

definition test :: "regex \<Rightarrow> jsstring \<Rightarrow> bool" where
  "test re s \<longleftrightarrow> find_match re (length s) s \<noteq> None"

definition lit :: "string \<Rightarrow> item list" where
  "lit s = map (\<lambda>c. Chr (of_char c)) s"


subsection \<open>Matching consumes input\<close>

text \<open>
  A match never gives input back, and a pattern that starts with a literal character
  consumes at least that character. The loops of the source that call \<open>exec\<close> until it
  fails terminate for this reason.
\<close>

lemma matchHere_length:
  "matchHere ci n ps rest marks caps = Some (after, caps') \<Longrightarrow> length after \<le> length rest"
proof (induction ci n ps rest marks caps rule: matchHere.induct)
  case (1 ci n rest marks caps)
  then show ?case by simp
next
  case (2 ci n x ps rest marks caps)
  then show ?case by (cases rest) (auto split: if_splits)
next
  case (3 ci n p ps rest marks caps)
  then show ?case by (cases rest) (auto split: if_splits)
next
  case (4 ci n p ps rest marks caps)
  then show ?case by (cases rest) (fastforce split: if_splits option.splits)+
next
  case (5 ci n p ps rest marks caps)
  then show ?case by (cases rest) (auto split: if_splits)
next
  case (6 ci n p ps rest marks caps)
  then show ?case by (cases rest) (fastforce split: if_splits option.splits)+
next
  case (7 ci n p ps rest marks caps)
  then show ?case by (cases rest) (fastforce split: if_splits option.splits)+
next
  case (8 ci n g ps rest marks caps)
  then show ?case by simp
next
  case (9 ci n g ps rest marks caps)
  then show ?case by (simp add: Let_def)
next
  case (10 ci n g ps rest marks caps)
  then show ?case by (fastforce simp: Let_def split: if_splits)
next
  case (11 ci n ps rest marks caps)
  then show ?case by (simp split: if_splits)
next
  case (12 ci n ps rest marks caps)
  then show ?case by (simp split: if_splits)
qed

lemma matchHere_Chr_shorter:
  "matchHere ci n (Chr x # ps) rest marks caps = Some (after, caps') \<Longrightarrow>
     length after < length rest"
  by (cases rest) (auto split: if_splits dest: matchHere_length)

lemma find_match_result:
  "find_match re n rest = Some (start, after, caps) \<Longrightarrow>
     suffix start rest \<and>
     matchHere (ignoreCase re) n (pattern re) start [] [] = Some (after, caps)"
proof (induction rest)
  case Nil
  then show ?case by (auto split: option.splits)
next
  case (Cons c cs)
  then show ?case by (auto split: option.splits simp: suffix_Cons)
qed

subsection \<open>\<open>exec\<close> and \<open>replace\<close>\<close>

text \<open>
  \<open>re.exec(s)\<close> for a regular expression with the \<open>g\<close> flag whose \<open>lastIndex\<close> is the
  given one: the captures of the leftmost match at or after \<open>lastIndex\<close> and the new
  \<open>lastIndex\<close>, the end of the match; or \<open>None\<close>, when \<open>exec\<close> returns \<open>null\<close> (and
  resets \<open>lastIndex\<close>).
\<close>

definition exec :: "regex \<Rightarrow> jsstring \<Rightarrow> nat \<Rightarrow> (captures \<times> nat) option" where
  "exec re s lastIndex =
     (if lastIndex > length s then None
      else
        (case find_match re (length s) (drop lastIndex s) of
           None \<Rightarrow> None
         | Some (start, after, caps) \<Rightarrow> Some (caps, length s - length after)))"

lemma exec_advances:
  assumes "exec re s i = Some (caps, j)" and "pattern re = Chr x # ps"
  shows "i < j \<and> j \<le> length s"
proof -
  from assms(1) obtain start after where i: "i \<le> length s"
    and s: "find_match re (length s) (drop i s) = Some (start, after, caps)"
    and j: "j = length s - length after"
    by (auto simp: exec_def split: if_splits option.splits)
  from find_match_result [OF s] have suf: "suffix start (drop i s)"
    and m: "matchHere (ignoreCase re) (length s) (pattern re) start [] [] = Some (after, caps)"
    by auto
  from m have "matchHere (ignoreCase re) (length s) (Chr x # ps) start [] [] = Some (after, caps)"
    by (simp only: assms(2))
  then have "length after < length start"
    by (rule matchHere_Chr_shorter)
  moreover from suf have "length start \<le> length (drop i s)"
    by (rule suffix_length_le)
  ultimately show ?thesis
    using i j by auto
qed

text \<open>
  \<open>s.replace(re, repl)\<close> for a regular expression with the \<open>g\<close> flag and a replacement
  text without \<open>$\<close>: every match, found from left to right, is replaced. After an empty
  match the scan moves one code unit on and keeps that code unit.
\<close>

fun replace_from :: "regex \<Rightarrow> jsstring \<Rightarrow> nat \<Rightarrow> jsstring \<Rightarrow> jsstring" where
  "replace_from re repl n [] =
     (case matchHere (ignoreCase re) n (pattern re) [] [] [] of
        None \<Rightarrow> []
      | Some r \<Rightarrow> repl)"
| "replace_from re repl n (c # cs) =
     (case matchHere (ignoreCase re) n (pattern re) (c # cs) [] [] of
        None \<Rightarrow> c # replace_from re repl n cs
      | Some (after, caps) \<Rightarrow>
          if length after < length (c # cs) then repl @ replace_from re repl n after
          else repl @ c # replace_from re repl n cs)"

definition replaceAll :: "regex \<Rightarrow> jsstring \<Rightarrow> jsstring \<Rightarrow> jsstring" where
  "replaceAll re repl s = replace_from re repl (length s) s"


section \<open>Numbers\<close>

text \<open>
  A number of the program is an IEEE double. \<open>Num q\<close> stands for the double nearest to the
  rational \<open>q\<close>: the conversion below computes the exact value of the numeric literal,
  which the language then rounds. Rounding never yields \<open>NaN\<close>, and it is exact on the
  small integers and fractions of the examples. The sign of a zero is not kept (\<open>-0\<close> is
  \<open>Num 0\<close>).
\<close>

datatype number = NaN | PosInfinity | NegInfinity | Num rat

definition isNaN :: "number \<Rightarrow> bool" where
  "isNaN x \<longleftrightarrow> x = NaN"

definition negate :: "number \<Rightarrow> number" where
  "negate x = (case x of NaN \<Rightarrow> NaN | PosInfinity \<Rightarrow> NegInfinity
               | NegInfinity \<Rightarrow> PosInfinity | Num q \<Rightarrow> Num (- q))"

definition isDecimalDigit :: "code_unit \<Rightarrow> bool" where
  "isDecimalDigit c \<longleftrightarrow> 0x30 \<le> c \<and> c \<le> 0x39"

definition isHexDigit :: "code_unit \<Rightarrow> bool" where
  "isHexDigit c \<longleftrightarrow> isDecimalDigit c \<or> (0x61 \<le> c \<and> c \<le> 0x66) \<or> (0x41 \<le> c \<and> c \<le> 0x46)"

definition digitValue :: "code_unit \<Rightarrow> nat" where
  "digitValue c =
     (if isDecimalDigit c then unat (c - 0x30)
      else if 0x61 \<le> c \<and> c \<le> 0x66 then unat (c - 0x61) + 10
      else unat (c - 0x41) + 10)"

definition isDigitOf :: "nat \<Rightarrow> code_unit \<Rightarrow> bool" where
  "isDigitOf radix c \<longleftrightarrow> isHexDigit c \<and> digitValue c < radix"

definition digitsValue :: "nat \<Rightarrow> jsstring \<Rightarrow> nat" where
  "digitsValue radix ds = foldl (\<lambda>a c. a * radix + digitValue c) 0 ds"

definition pow10 :: "int \<Rightarrow> rat" where
  "pow10 e = (if 0 \<le> e then 10 ^ nat e else 1 / 10 ^ nat (- e))"

text \<open>DecimalDigits: one or more decimal digits, up to the end of the text.\<close>

definition decimalDigits :: "jsstring \<Rightarrow> nat option" where
  "decimalDigits s =
     (if s \<noteq> [] \<and> list_all isDecimalDigit s then Some (digitsValue 10 s) else None)"

text \<open>SignedInteger: DecimalDigits with an optional sign.\<close>

definition signedInteger :: "jsstring \<Rightarrow> int option" where
  "signedInteger s =
     (case s of
        [] \<Rightarrow> None
      | c # cs \<Rightarrow>
          if c = 0x2B then map_option int (decimalDigits cs)
          else if c = 0x2D then map_option (\<lambda>v. - int v) (decimalDigits cs)
          else map_option int (decimalDigits s))"

text \<open>An optional ExponentPart up to the end of the text: \<open>e\<close> or \<open>E\<close>, then a SignedInteger.\<close>

definition exponentPart :: "jsstring \<Rightarrow> int option" where
  "exponentPart s =
     (case s of
        [] \<Rightarrow> Some 0
      | c # cs \<Rightarrow> if c = 0x65 \<or> c = 0x45 then signedInteger cs else None)"

text \<open>
  StrUnsignedDecimalLiteral: \<open>Infinity\<close>, or digits with an optional fraction and an
  optional exponent, with a digit on at least one side of the point.
\<close>

definition strUnsignedDecimalLiteral :: "jsstring \<Rightarrow> number option" where
  "strUnsignedDecimalLiteral s =
     (if s = js ''Infinity'' then Some PosInfinity
      else
        let ip = takeWhile isDecimalDigit s;
            r1 = dropWhile isDecimalDigit s;
            hasDot = (r1 \<noteq> [] \<and> hd r1 = 0x2E);
            fp = (if hasDot then takeWhile isDecimalDigit (tl r1) else []);
            r2 = (if hasDot then dropWhile isDecimalDigit (tl r1) else r1)
        in if ip = [] \<and> fp = [] then None
           else
             (case exponentPart r2 of
                None \<Rightarrow> None
              | Some e \<Rightarrow>
                  Some (Num (of_nat (digitsValue 10 (ip @ fp)) * pow10 (e - int (length fp))))))"

definition strDecimalLiteral :: "jsstring \<Rightarrow> number option" where
  "strDecimalLiteral s =
     (case s of
        [] \<Rightarrow> None
      | c # cs \<Rightarrow>
          if c = 0x2B then strUnsignedDecimalLiteral cs
          else if c = 0x2D then map_option negate (strUnsignedDecimalLiteral cs)
          else strUnsignedDecimalLiteral s)"

text \<open>NonDecimalIntegerLiteral: \<open>0b\<close>, \<open>0o\<close> or \<open>0x\<close> (either case) and digits; no sign.\<close>

definition nonDecimalIntegerLiteral :: "jsstring \<Rightarrow> number option" where
  "nonDecimalIntegerLiteral s =
     (case s of
        z # x # ds \<Rightarrow>
          if z = 0x30 \<and> ds \<noteq> [] then
            (if (x = 0x62 \<or> x = 0x42) \<and> list_all (isDigitOf 2) ds
               then Some (Num (of_nat (digitsValue 2 ds)))
             else if (x = 0x6F \<or> x = 0x4F) \<and> list_all (isDigitOf 8) ds
               then Some (Num (of_nat (digitsValue 8 ds)))
             else if (x = 0x78 \<or> x = 0x58) \<and> list_all (isDigitOf 16) ds
               then Some (Num (of_nat (digitsValue 16 ds)))
             else None)
          else None
      | _ \<Rightarrow> None)"

text \<open>
  \<open>Number(v)\<close> for a string: white space around the text is dropped, the empty text is
  \<open>0\<close>, a numeric literal is its value, anything else is \<open>NaN\<close>.
\<close>

definition Number :: "jsstring \<Rightarrow> number" where
  "Number v =
     (let t = trim v
      in if t = [] then Num 0
         else
           (case strDecimalLiteral t of
              Some x \<Rightarrow> x
            | None \<Rightarrow>
                (case nonDecimalIntegerLiteral t of
                   Some x \<Rightarrow> x
                 | None \<Rightarrow> NaN)))"


section \<open>The robots policy\<close>

subsection \<open>Parsing\<close>

definition userAgentRe :: regex where
  "userAgentRe = \<lparr>pattern = [Bol] @ lit ''User-agent'' @ [Eol], ignoreCase = True\<rparr>"

definition disallowRe :: regex where
  "disallowRe = \<lparr>pattern = [Bol] @ lit ''Disallow'' @ [Eol], ignoreCase = True\<rparr>"

definition crawlDelayRe :: regex where
  "crawlDelayRe = \<lparr>pattern = [Bol] @ lit ''Crawl-delay'' @ [Eol], ignoreCase = True\<rparr>"

text \<open>
  \<open>const [k, vRaw] = line.split(':', 2).map((s) => s.trim()); const v = vRaw ?? ''\<close>.
  The split never returns an empty array, so the first case is not reached.
\<close>

definition key_value :: "jsstring \<Rightarrow> jsstring \<times> jsstring" where
  "key_value line =
     (case map trim (split_limit 0x3A 2 line) of
        [] \<Rightarrow> ([], [])
      | [k] \<Rightarrow> (k, [])
      | k # vRaw # _ \<Rightarrow> (k, vRaw))"

text \<open>The variables of the parsing loop.\<close>

record parser =
  inStar :: bool
  disallows :: "jsstring list"
  crawlDelay :: "number option"

definition parser0 :: parser where
  "parser0 = \<lparr>inStar = False, disallows = [], crawlDelay = None\<rparr>"

text \<open>One turn of the loop \<open>for (const line of lines)\<close>.\<close>

definition parse_line :: "parser \<Rightarrow> jsstring \<Rightarrow> parser" where
  "parse_line st line =
     (if line = [] \<or> startsWith line (js ''#'') then st
      else
        let (k, v) = key_value line
        in if test userAgentRe k then st\<lparr>inStar := (v = js ''*'')\<rparr>
           else if \<not> inStar st then st
           else if test disallowRe k then
             (if v \<noteq> [] then st\<lparr>disallows := disallows st @ [v]\<rparr> else st)
           else if test crawlDelayRe k then
             (let n = Number v
              in if \<not> isNaN n then st\<lparr>crawlDelay := Some n\<rparr> else st)
           else st)"

definition robots_lines :: "jsstring \<Rightarrow> jsstring list" where
  "robots_lines txt = map trim (split_lines [] txt)"

definition parse_robots :: "jsstring \<Rightarrow> parser" where
  "parse_robots txt = foldl parse_line parser0 (robots_lines txt)"

subsection \<open>The permission check\<close>

text \<open>The loop of the returned \<open>allowed\<close> closure over the collected prefixes.\<close>

fun allowed_by :: "jsstring list \<Rightarrow> jsstring \<Rightarrow> bool" where
  "allowed_by [] path = True"
| "allowed_by (d # ds) path =
     (if d = [] then allowed_by ds path
      else if startsWith path d then False
      else allowed_by ds path)"

subsection \<open>Retrieval\<close>

text \<open>
  The network is a function from a request to its outcome: the call throws (\<open>Inl\<close>) or
  yields a response, whose body may in turn fail to be read. \<open>ok\<close> is the response's
  \<open>ok\<close> flag: a status from 200 to 299.
\<close>

datatype exn = Exn jsstring

record request =
  requestUrl :: jsstring
  requestUserAgent :: "jsstring option"

record response =
  status :: nat
  statusText :: jsstring
  body :: "exn + jsstring"

definition ok :: "response \<Rightarrow> bool" where
  "ok res \<longleftrightarrow> 200 \<le> status res \<and> status res \<le> 299"

record robots =
  allowed :: "jsstring \<Rightarrow> bool"
  robotsCrawlDelay :: "number option"

definition permissive :: robots where
  "permissive = \<lparr>allowed = (\<lambda>path. True), robotsCrawlDelay = None\<rparr>"

text \<open>The body of the \<open>try\<close> block of \<open>fetchRobots\<close>: \<open>Inl\<close> is a thrown exception.\<close>

definition fetchRobots_try :: "(request \<Rightarrow> exn + response) \<Rightarrow> jsstring \<Rightarrow> exn + robots" where
  "fetchRobots_try fetch origin =
     (let robotsUrl = origin @ js ''/robots.txt''
      in case fetch \<lparr>requestUrl = robotsUrl, requestUserAgent = None\<rparr> of
           Inl e \<Rightarrow> Inl e
         | Inr res \<Rightarrow>
             if \<not> ok res then Inr permissive
             else
               (case body res of
                  Inl e \<Rightarrow> Inl e
                | Inr txt \<Rightarrow>
                    let st = parse_robots txt
                    in Inr \<lparr>allowed = allowed_by (disallows st),
                            robotsCrawlDelay = crawlDelay st\<rparr>))"

text \<open>\<open>fetchRobots\<close>: the \<open>try\<close> block with its \<open>catch\<close>.\<close>

definition fetchRobots :: "(request \<Rightarrow> exn + response) \<Rightarrow> jsstring \<Rightarrow> exn + robots" where
  "fetchRobots fetch origin =
     (case fetchRobots_try fetch origin of
        Inl e \<Rightarrow> Inr permissive
      | Inr r \<Rightarrow> Inr r)"

section \<open>The page extractor\<close>

text \<open>The character classes of the source's patterns.\<close>

definition notGt :: "code_unit \<Rightarrow> bool" where
  "notGt c \<longleftrightarrow> c \<noteq> 0x3E"

definition anyUnit :: "code_unit \<Rightarrow> bool" where
  "anyUnit c \<longleftrightarrow> True"

definition digit123 :: "code_unit \<Rightarrow> bool" where
  "digit123 c \<longleftrightarrow> 0x31 \<le> c \<and> c \<le> 0x33"

definition quoteUnit :: "code_unit \<Rightarrow> bool" where
  "quoteUnit c \<longleftrightarrow> c = 0x22 \<or> c = 0x27"

definition hrefUnit :: "code_unit \<Rightarrow> bool" where
  "hrefUnit c \<longleftrightarrow> \<not> (c = 0x22 \<or> c = 0x27 \<or> isWhiteSpace c \<or> c = 0x3E)"

text \<open>\<open>/<[^>]+>/g\<close> and \<open>/\s+/g\<close>, and \<open>stripTags\<close>.\<close>

definition tagRe :: regex where
  "tagRe = \<lparr>pattern = [Chr 0x3C, Plus notGt, Chr 0x3E], ignoreCase = False\<rparr>"

definition spacesRe :: regex where
  "spacesRe = \<lparr>pattern = [Plus isWhiteSpace], ignoreCase = False\<rparr>"

definition stripTags :: "jsstring \<Rightarrow> jsstring" where
  "stripTags s = trim (replaceAll spacesRe (js '' '') (replaceAll tagRe [] s))"

text \<open>\<open>/<title[^>]*>([\s\S]*?)<\/title>/i\<close>\<close>

definition titleRe :: regex where
  "titleRe =
     \<lparr>pattern = lit ''<title'' @ [Star notGt, Chr 0x3E, Open 1, Lazy anyUnit, Close 1] @
                  lit ''</title>'',
      ignoreCase = True\<rparr>"

text \<open>\<open>/<(h[1-3])[^>]*>([\s\S]*?)<\/\1>/gi\<close>\<close>

definition hRegex :: regex where
  "hRegex =
     \<lparr>pattern = [Chr 0x3C, Open 1, Chr 0x68, Cls digit123, Close 1, Star notGt, Chr 0x3E,
                  Open 2, Lazy anyUnit, Close 2, Chr 0x3C, Chr 0x2F, Back 1, Chr 0x3E],
      ignoreCase = True\<rparr>"

text \<open>\<open>/<a\s+[^>]*href=(["']?)([^"'\s>]+)\1[^>]*>([\s\S]*?)<\/a>/gi\<close>\<close>

definition aRegex :: regex where
  "aRegex =
     \<lparr>pattern = [Chr 0x3C, Chr 0x61, Plus isWhiteSpace, Star notGt] @ lit ''href='' @
                 [Open 1, Opt quoteUnit, Close 1, Open 2, Plus hrefUnit, Close 2, Back 1,
                  Star notGt, Chr 0x3E, Open 3, Lazy anyUnit, Close 3] @ lit ''</a>'',
      ignoreCase = True\<rparr>"

text \<open>
  An entry of \<open>links\<close>. The field \<open>linkText\<close> is the source's \<open>text\<close>, which is a keyword
  here.
\<close>

record link =
  href :: jsstring
  linkText :: jsstring

text \<open>
  \<open>new URL(rawHref, baseOrigin).toString()\<close> is the platform's URL resolution. It is a
  parameter of the model: a function from the reference and the base to the absolute URL,
  or to the exception it throws.
\<close>

type_synonym resolver = "jsstring \<Rightarrow> jsstring \<Rightarrow> exn + jsstring"

text \<open>
  The loop \<open>while ((hMatch = hRegex.exec(html)) && headings.length < 5)\<close>. \<open>exec\<close> is called
  before the length is tested. Each turn adds a heading, so the loop ends.
\<close>

function headings_loop :: "jsstring \<Rightarrow> nat \<Rightarrow> jsstring list \<Rightarrow> jsstring list" where
  "headings_loop html lastIndex headings =
     (case exec hRegex html lastIndex of
        None \<Rightarrow> headings
      | Some (hMatch, lastIndex') \<Rightarrow>
          if length headings < 5
          then headings_loop html lastIndex' (headings @ [stripTags (capture hMatch 2)])
          else headings)"
  by pat_completeness auto
termination
  by (relation "measure (\<lambda>(html, lastIndex, headings). 5 - length headings)") auto

text \<open>The body of the \<open>try\<close> block in the loop over the anchors.\<close>

definition link_try :: "resolver \<Rightarrow> jsstring \<Rightarrow> captures \<Rightarrow> link list \<Rightarrow> exn + link list" where
  "link_try resolve baseOrigin aMatch links =
     (let rawHref = capture aMatch 2;
          text' = stripTags (capture aMatch 3)
      in case resolve rawHref baseOrigin of
           Inl e \<Rightarrow> Inl e
         | Inr href' \<Rightarrow> Inr (links @ [\<lparr>href = href', linkText = text'\<rparr>]))"

lemma exec_aRegex_advances:
  "exec aRegex html i = Some (caps, j) \<Longrightarrow> i < j \<and> j \<le> length html"
  by (erule exec_advances) (simp add: aRegex_def)

text \<open>
  The loop \<open>while ((aMatch = aRegex.exec(html)) && links.length < 50)\<close> with its \<open>try\<close> and
  empty \<open>catch\<close>. \<open>links\<close> grows only when the reference resolves; the loop ends because
  every match of the pattern is at least one code unit long, so \<open>lastIndex\<close> moves on.
\<close>

function links_loop ::
  "resolver \<Rightarrow> jsstring \<Rightarrow> jsstring \<Rightarrow> nat \<Rightarrow> link list \<Rightarrow> exn + link list"
where
  "links_loop resolve html baseOrigin lastIndex links =
     (case exec aRegex html lastIndex of
        None \<Rightarrow> Inr links
      | Some (aMatch, lastIndex') \<Rightarrow>
          if length links < 50 then
            (case link_try resolve baseOrigin aMatch links of
               Inr links' \<Rightarrow> links_loop resolve html baseOrigin lastIndex' links'
             | Inl e \<Rightarrow> links_loop resolve html baseOrigin lastIndex' links)
          else Inr links)"
  by pat_completeness auto
termination
proof (relation "measure (\<lambda>(resolve, html, baseOrigin, lastIndex, links). length html - lastIndex)")
  show "wf (measure (\<lambda>(resolve, html, baseOrigin, lastIndex, links). length html - lastIndex))"
    by simp
qed (auto dest!: exec_aRegex_advances)

text \<open>The loop \<open>for (const l of links)\<close> that removes duplicates and stops at ten.\<close>

fun unique_loop :: "link list \<Rightarrow> jsstring set \<Rightarrow> link list \<Rightarrow> link list" where
  "unique_loop [] seen unique = unique"
| "unique_loop (l # ls) seen unique =
     (if href l \<notin> seen then
        (if length (unique @ [l]) \<ge> 10 then unique @ [l]
         else unique_loop ls (insert (href l) seen) (unique @ [l]))
      else unique_loop ls seen unique)"

text \<open>The result of \<open>extractData\<close>, and the function. \<open>Inl\<close> is an exception that leaves it.\<close>

record extraction =
  title :: "jsstring option"
  headings :: "jsstring list"
  links :: "link list"


definition extractData :: "resolver \<Rightarrow> jsstring \<Rightarrow> jsstring \<Rightarrow> exn + extraction" where
  "extractData resolve html baseOrigin =
     (let title' =
            (case find_match titleRe (length html) html of
               None \<Rightarrow> None
             | Some (start, after, titleMatch) \<Rightarrow> Some (stripTags (capture titleMatch 1)));
          headings' = headings_loop html 0 []
      in case links_loop resolve html baseOrigin 0 [] of
           Inl e \<Rightarrow> Inl e
         | Inr links' \<Rightarrow>
             Inr \<lparr>title = title', headings = headings', links = unique_loop links' {} []\<rparr>)"


section \<open>The request handler\<close>








section \<open>What the specification says about parsing robots documents\<close>

text \<open>
  The definitions of this subsection follow the words of the specification, not the loop
  of the source; the refinement lemmas below compare the two. A directive name matches
  without regard to case. The directives of a document are the key and value of each line
  that is neither blank nor a comment. The universal group is open after a sequence of
  directives when the sequence has a \<open>User-agent\<close> directive and the last one has the
  value \<open>*\<close>. A directive is attributed to the group when the group is open after the
  directives before it and it is not itself a \<open>User-agent\<close> directive.
\<close>

definition is_name :: "string \<Rightarrow> jsstring \<Rightarrow> bool" where
  "is_name nm k \<longleftrightarrow> map (canonicalize True) k = map (canonicalize True) (js nm)"

definition directives :: "jsstring list \<Rightarrow> (jsstring \<times> jsstring) list" where
  "directives lines =
     map key_value (filter (\<lambda>l. l \<noteq> [] \<and> \<not> prefix (js ''#'') l) lines)"

definition group_open :: "(jsstring \<times> jsstring) list \<Rightarrow> bool" where
  "group_open ds =
     (let us = filter (\<lambda>d. is_name ''User-agent'' (fst d)) ds
      in us \<noteq> [] \<and> snd (last us) = js ''*'')"

definition attributed :: "(jsstring \<times> jsstring) list \<Rightarrow> (jsstring \<times> jsstring) list" where
  "attributed ds =
     concat (map (\<lambda>i. if group_open (take i ds) \<and> \<not> is_name ''User-agent'' (fst (ds ! i))
                        then [ds ! i] else []) [0..<length ds])"

definition spec_disallows :: "(jsstring \<times> jsstring) list \<Rightarrow> jsstring list" where
  "spec_disallows ds =
     map snd (filter (\<lambda>d. is_name ''Disallow'' (fst d) \<and> snd d \<noteq> []) (attributed ds))"

definition spec_crawlDelay :: "(jsstring \<times> jsstring) list \<Rightarrow> number option" where
  "spec_crawlDelay ds =
     (let ns = filter (\<lambda>x. \<not> isNaN x)
                 (map (\<lambda>d. Number (snd d))
                    (filter (\<lambda>d. is_name ''Crawl-delay'' (fst d)) (attributed ds)))
      in if ns = [] then None else Some (last ns))"




section \<open>What the specification says about extraction\<close>

text \<open>
  The successive matches of a regular expression with the \<open>g\<close> flag, as repeated calls
  of \<open>exec\<close> return them from a given \<open>lastIndex\<close> on. The guard \<open>i < j\<close> holds for every
  pattern that cannot match the empty text, as the patterns of the source's loops, which
  start with \<open><\<close>; it makes the list finite for the others.
\<close>

lemma exec_le: "exec re s i = Some (caps, j) \<Longrightarrow> j \<le> length s"
  by (auto simp: exec_def split: if_splits option.splits)

function matches_from :: "regex \<Rightarrow> jsstring \<Rightarrow> nat \<Rightarrow> captures list" where
  "matches_from re s i =
     (case exec re s i of
        None \<Rightarrow> []
      | Some (caps, j) \<Rightarrow> caps # (if i < j then matches_from re s j else []))"
  by pat_completeness auto

termination
proof (relation "measure (\<lambda>(re, s, i). length s - i)")
  show "wf (measure (\<lambda>(re, s, i). length s - i))"
    by simp
qed (auto dest!: exec_le)

text \<open>
  The entry an anchor match gives: none when its reference does not resolve.
\<close>

definition entry :: "resolver \<Rightarrow> jsstring \<Rightarrow> captures \<Rightarrow> link option" where
  "entry resolve baseOrigin caps =
     (case resolve (capture caps 2) baseOrigin of
        Inl e \<Rightarrow> None
      | Inr h \<Rightarrow> Some \<lparr>href = h, linkText = stripTags (capture caps 3)\<rparr>)"

text \<open>
  First-seen-only: the entries whose \<open>href\<close> differs from the \<open>href\<close> of every earlier
  entry, in their order.
\<close>

definition first_seen :: "link list \<Rightarrow> link list" where
  "first_seen ls =
     concat (map (\<lambda>i. if href (ls ! i) \<notin> href ` set (take i ls) then [ls ! i] else [])
               [0..<length ls])"





section \<open>Platform functions for the examples\<close>

text \<open>
  The examples resolve references with this function. It knows one malformed reference,
  \<open>http://[\<close> (an IPv6 literal that is never closed, which the platform's URL parser
  rejects), and joins every other reference to the base, as the platform does for a plain
  absolute path such as \<open>/a/b\<close> against an origin.
\<close>

definition sample_resolve :: resolver where
  "sample_resolve rawHref baseOrigin =
     (if rawHref = js ''http://['' then Inl (Exn (js ''Invalid URL''))
      else Inr (baseOrigin @ rawHref))"





section \<open>Properties of the robots policy\<close>

subsection \<open>Auxiliary facts\<close>

lemma startsWith_prefix: "startsWith s d \<longleftrightarrow> prefix d s"
proof
  assume "startsWith s d"
  then have "take (length d) s = d" by (simp add: startsWith_def)
  then show "prefix d s" by (metis take_is_prefix)
next
  assume "prefix d s"
  then show "startsWith s d" by (auto simp: startsWith_def prefix_def)
qed

lemma allowed_by_iff:
  "allowed_by ds p \<longleftrightarrow> \<not> (\<exists>d\<in>set ds. d \<noteq> [] \<and> prefix d p)"
  by (induction ds) (auto simp: startsWith_prefix)

lemma attributed_snoc:
  "attributed (ds @ [d]) =
     attributed ds @ (if group_open ds \<and> \<not> is_name ''User-agent'' (fst d) then [d] else [])"
proof -
  define f where "f = (\<lambda>(xs :: (jsstring \<times> jsstring) list) i.
    if group_open (take i xs) \<and> \<not> is_name ''User-agent'' (fst (xs ! i)) then [xs ! i] else [])"
  have att: "attributed xs = concat (map (f xs) [0..<length xs])" for xs
    by (simp add: attributed_def f_def)
  have "f (ds @ [d]) i = f ds i" if "i < length ds" for i
    using that by (simp add: f_def nth_append)
  then have same: "map (f (ds @ [d])) [0..<length ds] = map (f ds) [0..<length ds]"
    by simp
  have last: "f (ds @ [d]) (length ds) =
    (if group_open ds \<and> \<not> is_name ''User-agent'' (fst d) then [d] else [])"
    by (simp add: f_def)
  have "attributed (ds @ [d]) = concat (map (f (ds @ [d])) [0..<length ds]) @ f (ds @ [d]) (length ds)"
    by (simp add: att)
  then show ?thesis
    by (simp only: same last att)
qed

lemma group_open_snoc:
  "group_open (ds @ [d]) = (if is_name ''User-agent'' (fst d) then snd d = js ''*'' else group_open ds)"
  by (simp add: group_open_def Let_def)

lemma directives_snoc:
  "directives (ls @ [l]) =
     directives ls @ (if l \<noteq> [] \<and> \<not> prefix (js ''#'') l then [key_value l] else [])"
  by (simp add: directives_def)

lemma not_both_names:
  "is_name ''Disallow'' k \<Longrightarrow> \<not> is_name ''Crawl-delay'' k"
  "is_name ''Disallow'' k \<Longrightarrow> \<not> is_name ''User-agent'' k"
  "is_name ''Crawl-delay'' k \<Longrightarrow> \<not> is_name ''User-agent'' k"
  by (auto simp: is_name_def js_def dest!: arg_cong [where f = length])

lemma lit_js: "lit s = map Chr (js s)"
  by (simp add: lit_def js_def)

lemma matchHere_lits:
  "matchHere ci n (map Chr xs @ [Eol]) rest marks caps =
     (if map (canonicalize ci) rest = map (canonicalize ci) xs then Some ([], caps) else None)"
proof (induction xs arbitrary: rest)
  case Nil
  then show ?case by simp
next
  case (Cons x xs)
  then show ?case by (cases rest) auto
qed

lemma find_match_Bol_None:
  "length rest < n \<Longrightarrow> pattern re = Bol # ps \<Longrightarrow> find_match re n rest = None"
  by (induction rest) auto

lemma test_anchored:
  assumes "pattern re = [Bol] @ lit nm @ [Eol]" "ignoreCase re = True"
  shows "test re s \<longleftrightarrow> is_name nm s"
proof (cases s)
  case Nil
  with assms show ?thesis
    by (simp add: test_def is_name_def lit_js matchHere_lits)
next
  case (Cons c cs)
  have "find_match re (length s) cs = None"
    using assms Cons by (intro find_match_Bol_None [where ps = "lit nm @ [Eol]"]) auto
  with assms Cons show ?thesis
    by (simp add: test_def is_name_def lit_js matchHere_lits)
qed

lemma test_userAgent: "test userAgentRe k \<longleftrightarrow> is_name ''User-agent'' k"
  by (rule test_anchored) (simp_all add: userAgentRe_def)

lemma test_disallow: "test disallowRe k \<longleftrightarrow> is_name ''Disallow'' k"
  by (rule test_anchored) (simp_all add: disallowRe_def)

lemma test_crawlDelay: "test crawlDelayRe k \<longleftrightarrow> is_name ''Crawl-delay'' k"
  by (rule test_anchored) (simp_all add: crawlDelayRe_def)

lemmas test_names = test_userAgent test_disallow test_crawlDelay

lemma spec_disallows_snoc:
  "spec_disallows (ds @ [d]) =
     spec_disallows ds @
       (if group_open ds \<and> is_name ''Disallow'' (fst d) \<and> snd d \<noteq> [] then [snd d] else [])"
  using not_both_names(2) [of "fst d"] by (auto simp: spec_disallows_def attributed_snoc)

lemma spec_crawlDelay_snoc:
  "spec_crawlDelay (ds @ [d]) =
     (if group_open ds \<and> is_name ''Crawl-delay'' (fst d) \<and> \<not> isNaN (Number (snd d))
      then Some (Number (snd d)) else spec_crawlDelay ds)"
  using not_both_names(3) [of "fst d"]
  by (auto simp: spec_crawlDelay_def attributed_snoc Let_def)

lemma parse_line_skip:
  "l = [] \<or> prefix (js ''#'') l \<Longrightarrow> parse_line st l = st"
  by (auto simp: parse_line_def startsWith_prefix)

lemma parse_line_directive:
  assumes "l \<noteq> []" "\<not> prefix (js ''#'') l"
  shows "parse_line st l =
     (let k = fst (key_value l); v = snd (key_value l)
      in if is_name ''User-agent'' k then st\<lparr>inStar := (v = js ''*'')\<rparr>
         else if \<not> inStar st then st
         else if is_name ''Disallow'' k then
           (if v \<noteq> [] then st\<lparr>disallows := disallows st @ [v]\<rparr> else st)
         else if is_name ''Crawl-delay'' k then
           (if \<not> isNaN (Number v) then st\<lparr>crawlDelay := Some (Number v)\<rparr> else st)
         else st)"
  using assms
  by (simp add: parse_line_def startsWith_prefix test_names Let_def split: prod.splits)

lemma parse_lines_refines:
  "inStar (foldl parse_line parser0 ls) = group_open (directives ls) \<and>
   disallows (foldl parse_line parser0 ls) = spec_disallows (directives ls) \<and>
   crawlDelay (foldl parse_line parser0 ls) = spec_crawlDelay (directives ls)"
proof (induction ls rule: rev_induct)
  case Nil
  show ?case
    by (simp add: parser0_def directives_def group_open_def spec_disallows_def
        spec_crawlDelay_def attributed_def)
next
  case (snoc l ls)
  show ?case
  proof (cases "l = [] \<or> prefix (js ''#'') l")
    case True
    then have "directives (ls @ [l]) = directives ls"
      by (auto simp: directives_snoc)
    with True snoc show ?thesis
      by (simp add: parse_line_skip)
  next
    case False
    then have d: "directives (ls @ [l]) = directives ls @ [key_value l]"
      by (auto simp: directives_snoc)
    from False have p: "l \<noteq> []" "\<not> prefix (js ''#'') l" by auto
    show ?thesis
      using snoc not_both_names [of "fst (key_value l)"]
      by (auto simp: d parse_line_directive [OF p] Let_def group_open_snoc
          spec_disallows_snoc spec_crawlDelay_snoc)
  qed
qed

lemma parse_robots_refines:
  "inStar (parse_robots txt) = group_open (directives (robots_lines txt))"
  "disallows (parse_robots txt) = spec_disallows (directives (robots_lines txt))"
  "crawlDelay (parse_robots txt) = spec_crawlDelay (directives (robots_lines txt))"
  using parse_lines_refines [of "robots_lines txt"] by (simp_all add: parse_robots_def)

lemma disallows_nonempty: "[] \<notin> set (disallows (parse_robots txt))"
  by (auto simp: parse_robots_refines spec_disallows_def)

lemma fetchRobots_success:
  assumes "fetch \<lparr>requestUrl = origin @ js ''/robots.txt'', requestUserAgent = None\<rparr> = Inr res"
    and "ok res" and "body res = Inr txt"
  shows "fetchRobots fetch origin =
     Inr \<lparr>allowed = allowed_by (disallows (parse_robots txt)),
          robotsCrawlDelay = crawlDelay (parse_robots txt)\<rparr>"
  using assms by (simp add: fetchRobots_def fetchRobots_try_def Let_def)





subsection \<open>Claim C1: the permission check is a literal prefix test\<close>

text \<open>
  Claim C1. When the robots document is retrieved with a success status and its text is
  read, the policy that \<open>fetchRobots\<close> returns refuses a path exactly when some collected
  prefix is a literal prefix of the path, and allows it otherwise. No collected prefix is
  empty, and the check itself skips empty entries: on any list it refuses a path exactly
  when a non-empty entry is a prefix of it.
\<close>

theorem C1_allowed_iff_no_disallowed_prefix:
  assumes "fetch \<lparr>requestUrl = origin @ js ''/robots.txt'', requestUserAgent = None\<rparr> = Inr res"
    and "ok res" and "body res = Inr txt"
  shows "\<exists>r. fetchRobots fetch origin = Inr r \<and>
           (\<forall>p. allowed r p \<longleftrightarrow> \<not> (\<exists>d\<in>set (disallows (parse_robots txt)). prefix d p)) \<and>
           [] \<notin> set (disallows (parse_robots txt)) \<and>
           (\<forall>ds p. allowed_by ds p \<longleftrightarrow> \<not> (\<exists>d\<in>set ds. d \<noteq> [] \<and> prefix d p))"
proof -
  let ?r = "\<lparr>allowed = allowed_by (disallows (parse_robots txt)),
             robotsCrawlDelay = crawlDelay (parse_robots txt)\<rparr>"
  have "fetchRobots fetch origin = Inr ?r"
    using assms by (rule fetchRobots_success)
  moreover have "\<forall>p. allowed ?r p \<longleftrightarrow> \<not> (\<exists>d\<in>set (disallows (parse_robots txt)). prefix d p)"
    using disallows_nonempty [of "txt"] by (auto simp: allowed_by_iff)
  ultimately show ?thesis
    using disallows_nonempty [of "txt"] allowed_by_iff by blast
qed

text \<open>
  The hypotheses of C1 at a document with one prefix and one empty \<open>Disallow\<close>.
\<close>

theorem C1_allowed_iff_no_disallowed_prefix_witness:
  "\<exists>r. fetchRobots
         (\<lambda>rq. Inr \<lparr>status = 200, statusText = js ''OK'',
                     body = Inr (js ''User-agent: *\<newline>Disallow: /private\<newline>Disallow:'')\<rparr>)
         (js ''https://x.test'') = Inr r \<and>
       \<not> allowed r (js ''/private/a'') \<and> allowed r (js ''/public'') \<and> allowed r (js ''/priv'')"
proof -
  let ?txt = "js ''User-agent: *\<newline>Disallow: /private\<newline>Disallow:''"
  let ?res = "\<lparr>status = 200, statusText = js ''OK'', body = Inr ?txt\<rparr>"
  have ds: "disallows (parse_robots ?txt) = [js ''/private'']"
    by code_simp
  have "ok ?res" "body ?res = Inr ?txt"
    by (simp_all add: ok_def)
  from C1_allowed_iff_no_disallowed_prefix [of "\<lambda>rq. Inr ?res" "js ''https://x.test''" ?res ?txt, OF refl this]
  obtain r where r: "fetchRobots (\<lambda>rq. Inr ?res) (js ''https://x.test'') = Inr r"
    and a: "\<And>p. allowed r p \<longleftrightarrow> \<not> (\<exists>d\<in>set (disallows (parse_robots ?txt)). prefix d p)"
    by blast
  have "\<not> allowed r (js ''/private/a'')" "allowed r (js ''/public'')" "allowed r (js ''/priv'')"
    unfolding a ds by (simp_all add: js_def)
  with r show ?thesis by blast
qed


subsection \<open>Claim C2: retrieval fails open\<close>

text \<open>
  Claim C2. \<open>fetchRobots\<close> never throws: whatever the network does, it returns a
  policy. When the retrieval throws, the status is not a success status, or reading the
  body throws, the policy allows every path and carries no crawl delay. Parsing itself
  has no failing step: every operation of the loop is total on strings.
\<close>

theorem C2_fail_open:
  "(\<exists>r. fetchRobots fetch origin = Inr r) \<and>
   ((\<exists>e. fetch \<lparr>requestUrl = origin @ js ''/robots.txt'', requestUserAgent = None\<rparr> = Inl e) \<or>
    (\<exists>res. fetch \<lparr>requestUrl = origin @ js ''/robots.txt'', requestUserAgent = None\<rparr> = Inr res \<and>
           (\<not> ok res \<or> (\<exists>e. body res = Inl e))) \<longrightarrow>
    (\<exists>r. fetchRobots fetch origin = Inr r \<and> (\<forall>p. allowed r p) \<and> robotsCrawlDelay r = None))"
proof -
  have "\<exists>r. fetchRobots fetch origin = Inr r"
    by (simp add: fetchRobots_def split: sum.splits)
  moreover have "fetchRobots fetch origin = Inr permissive"
    if "(\<exists>e. fetch \<lparr>requestUrl = origin @ js ''/robots.txt'', requestUserAgent = None\<rparr> = Inl e) \<or>
        (\<exists>res. fetch \<lparr>requestUrl = origin @ js ''/robots.txt'', requestUserAgent = None\<rparr> = Inr res \<and>
           (\<not> ok res \<or> (\<exists>e. body res = Inl e)))"
    using that by (auto simp: fetchRobots_def fetchRobots_try_def Let_def split: sum.splits)
  ultimately show ?thesis
    by (auto simp: permissive_def)
qed

text \<open>
  C2 at a 404 response: the body is not even looked at.
\<close>

theorem C2_fail_open_witness:
  "\<exists>r. fetchRobots
         (\<lambda>rq. Inr \<lparr>status = 404, statusText = js ''Not Found'',
                     body = Inr (js ''User-agent: *\<newline>Disallow: /\<newline>Crawl-delay: 10'')\<rparr>)
         (js ''https://x.test'') = Inr r \<and>
       (\<forall>p. allowed r p) \<and> robotsCrawlDelay r = None"
proof -
  let ?res = "\<lparr>status = 404, statusText = js ''Not Found'',
               body = Inr (js ''User-agent: *\<newline>Disallow: /\<newline>Crawl-delay: 10'')\<rparr>"
  have "\<not> ok ?res" by (simp add: ok_def)
  with C2_fail_open [of "\<lambda>rq. Inr ?res" "js ''https://x.test''"] show ?thesis
    by blast
qed


subsection \<open>Claim C3: the universal group\<close>




subsection \<open>Claim C4: the crawl delay\<close>





subsection \<open>Claim C8: key and value of a line\<close>

text \<open>
  The key of a line is the trimmed text before its first colon. The value is the trimmed
  text between the first colon and the second, or the end of the line.
\<close>

lemma split_on_eq:
  "split_on sep cur s =
     (cur @ takeWhile (\<lambda>c. c \<noteq> sep) s) #
     (case dropWhile (\<lambda>c. c \<noteq> sep) s of [] \<Rightarrow> [] | c # r \<Rightarrow> split_on sep [] r)"
  by (induction s arbitrary: cur) auto

lemma key_value_between_colons:
  "key_value line =
     (trim (takeWhile (\<lambda>c. c \<noteq> 0x3A) line),
      trim (takeWhile (\<lambda>c. c \<noteq> 0x3A) (drop 1 (dropWhile (\<lambda>c. c \<noteq> 0x3A) line))))"
proof (cases "dropWhile (\<lambda>c. c \<noteq> 0x3A) line")
  case Nil
  have "split_on 0x3A [] line = [takeWhile (\<lambda>c. c \<noteq> 0x3A) line]"
    using split_on_eq [of "0x3A" "[]" line] unfolding Nil by simp
  then show ?thesis
    unfolding Nil by (simp add: key_value_def split_limit_def trim_def)
next
  case (Cons c r)
  have "split_on 0x3A [] line =
      takeWhile (\<lambda>c. c \<noteq> 0x3A) line # split_on 0x3A [] r"
    using split_on_eq [of "0x3A" "[]" line] unfolding Cons by simp
  moreover have "split_on 0x3A [] r = takeWhile (\<lambda>c. c \<noteq> 0x3A) r #
      (case dropWhile (\<lambda>c. c \<noteq> 0x3A) r of [] \<Rightarrow> [] | c # r' \<Rightarrow> split_on 0x3A [] r')"
    using split_on_eq [of "0x3A" "[]" r] by simp
  ultimately show ?thesis
    using Cons by (simp add: key_value_def split_limit_def)
qed

text \<open>
  Claim C8 says that the value of a line is everything after its first colon. The source
  splits the line at every colon and keeps the first two pieces, so the value ends at
  the second colon: the line \<open>Disallow: /a:b\<close> has the value \<open>/a\<close>, and the prefix
  collected from it is \<open>/a\<close>.
\<close>

theorem C8_value_ends_at_second_colon:
  "key_value (js ''Disallow: /a:b'') = (js ''Disallow'', js ''/a'') \<and>
   disallows (parse_robots (js ''User-agent: *\<newline>Disallow: /a:b'')) = [js ''/a'']"
  by code_simp


section \<open>Properties of the page extractor\<close>

subsection \<open>The loops and the list of matches\<close>

declare matches_from.simps [simp del]

lemma matches_from_aRegex:
  "matches_from aRegex html i =
     (case exec aRegex html i of
        None \<Rightarrow> []
      | Some (caps, j) \<Rightarrow> caps # matches_from aRegex html j)"
  by (subst matches_from.simps) (auto split: option.splits dest: exec_aRegex_advances)

lemma exec_hRegex_advances:
  "exec hRegex html i = Some (caps, j) \<Longrightarrow> i < j \<and> j \<le> length html"
  by (erule exec_advances) (simp add: hRegex_def)

lemma matches_from_hRegex:
  "matches_from hRegex html i =
     (case exec hRegex html i of
        None \<Rightarrow> []
      | Some (caps, j) \<Rightarrow> caps # matches_from hRegex html j)"
  by (subst matches_from.simps) (auto split: option.splits dest: exec_hRegex_advances)

declare links_loop.simps [simp del] headings_loop.simps [simp del]

lemma link_try_entry:
  "link_try resolve b caps ls =
     (case entry resolve b caps of None \<Rightarrow> (case resolve (capture caps 2) b of Inl e \<Rightarrow> Inl e | Inr h \<Rightarrow> Inr ls)
      | Some l \<Rightarrow> Inr (ls @ [l]))"
  by (simp add: link_try_def entry_def Let_def split: sum.splits)

lemma links_loop_collects:
  "links_loop resolve html b i ls =
     Inr (ls @ take (50 - length ls) (List.map_filter (entry resolve b) (matches_from aRegex html i)))"
proof (induction resolve html b i ls rule: links_loop.induct)
  case (1 resolve html b i ls)
  show ?case
  proof (cases "exec aRegex html i")
    case None
    then show ?thesis
      by (subst links_loop.simps, subst matches_from_aRegex) (simp add: List.map_filter_simps)
  next
    case (Some r)
    obtain caps j where r: "r = (caps, j)" by (cases r)
    show ?thesis
    proof (cases "length ls < 50")
      case False
      with Some r show ?thesis
        by (subst links_loop.simps) simp
    next
      case True
      show ?thesis
      proof (cases "resolve (capture caps 2) b")
        case (Inl e)
        then have t: "link_try resolve b caps ls = Inl e" and e: "entry resolve b caps = None"
          by (simp_all add: link_try_def entry_def Let_def)
        from "1.IH"(1) [OF Some r [symmetric] True t]
        show ?thesis
          using Some r True t e
          by (subst links_loop.simps, subst matches_from_aRegex) (simp add: List.map_filter_simps)
      next
        case (Inr h)
        let ?l = "\<lparr>href = h, linkText = stripTags (capture caps 3)\<rparr>"
        from Inr have t: "link_try resolve b caps ls = Inr (ls @ [?l])"
          and e: "entry resolve b caps = Some ?l"
          by (simp_all add: link_try_def entry_def Let_def)
        from True have "50 - length ls = Suc (50 - length (ls @ [?l]))"
          by simp
        with "1.IH"(2) [OF Some r [symmetric] True t]
        show ?thesis
          using Some r True t e
          by (subst links_loop.simps, subst matches_from_aRegex) (simp add: List.map_filter_simps)
      qed
    qed
  qed
qed

lemma headings_loop_collects:
  "headings_loop html i hs =
     hs @ take (5 - length hs) (map (\<lambda>caps. stripTags (capture caps 2)) (matches_from hRegex html i))"
proof (induction html i hs rule: headings_loop.induct)
  case (1 html i hs)
  show ?case
  proof (cases "exec hRegex html i")
    case None
    then show ?thesis
      by (subst headings_loop.simps, subst matches_from_hRegex) simp
  next
    case (Some r)
    obtain caps j where r: "r = (caps, j)" by (cases r)
    show ?thesis
    proof (cases "length hs < 5")
      case False
      with Some r show ?thesis
        by (subst headings_loop.simps) simp
    next
      case True
      then have "5 - length hs = Suc (5 - length (hs @ [stripTags (capture caps 2)]))"
        by simp
      with "1.IH" [OF Some r [symmetric] True]
      show ?thesis
        using Some r True
        by (subst headings_loop.simps, subst matches_from_hRegex) simp
    qed
  qed
qed

lemma links_loop_result:
  "links_loop resolve html b 0 [] =
     Inr (take 50 (List.map_filter (entry resolve b) (matches_from aRegex html 0)))"
  using links_loop_collects [of resolve html b 0 "[]"] by simp

lemma links_loop_skip:
  assumes "exec aRegex html i = Some (caps, j)" and "length ls < 50"
    and "resolve (capture caps 2) b = Inl e"
  shows "links_loop resolve html b i ls = links_loop resolve html b j ls"
  using assms by (subst links_loop.simps) (simp add: link_try_def Let_def)

lemma matches_from_Nil_iff: "matches_from re s i = [] \<longleftrightarrow> exec re s i = None"
  by (subst matches_from.simps) (simp split: option.splits)



subsection \<open>Removing duplicates\<close>

lemma unique_loop_take:
  "length unique < 10 \<Longrightarrow>
   unique_loop ls seen unique =
     unique @ take (10 - length unique)
       (concat (map (\<lambda>i. if href (ls ! i) \<notin> seen \<union> href ` set (take i ls) then [ls ! i] else [])
                  [0..<length ls]))"
proof (induction ls arbitrary: seen unique)
  case Nil
  then show ?case by simp
next
  case (Cons l ls)
  let ?f = "\<lambda>S (xs :: link list) i. if href (xs ! i) \<notin> S \<union> href ` set (take i xs) then [xs ! i] else []"
  have "[0..<Suc (length ls)] = 0 # [Suc 0..<Suc (length ls)]"
    by (rule upt_conv_Cons) simp
  then have upt: "[0..<length (l # ls)] = 0 # map Suc [0..<length ls]"
    by (simp only: map_Suc_upt list.size) simp
  show ?case
  proof (cases "href l \<in> seen")
    case True
    then have "seen \<union> href ` set (take (Suc i) (l # ls)) = seen \<union> href ` set (take i ls)" for i
      by auto
    with True have "map (?f seen (l # ls)) (map Suc [0..<length ls]) = map (?f seen ls) [0..<length ls]"
      by simp
    with True Cons.IH [OF Cons.prems, of seen] show ?thesis
      by (simp only: upt list.map concat.simps unique_loop.simps) simp
  next
    case False
    have "seen \<union> href ` set (take (Suc i) (l # ls)) = insert (href l) seen \<union> href ` set (take i ls)" for i
      by auto
    then have m: "map (?f seen (l # ls)) (map Suc [0..<length ls]) =
        map (?f (insert (href l) seen) ls) [0..<length ls]"
      by simp
    show ?thesis
    proof (cases "length (unique @ [l]) \<ge> 10")
      case True
      with Cons.prems have "10 - length unique = 1" by simp
      with True False show ?thesis
        by (simp only: upt list.map concat.simps unique_loop.simps) simp
    next
      case ge: False
      then have lt: "length (unique @ [l]) < 10" by simp
      then have "10 - length unique = Suc (10 - length (unique @ [l]))" by simp
      with ge False Cons.IH [OF lt, of "insert (href l) seen"] m show ?thesis
        by (simp only: upt list.map concat.simps unique_loop.simps) simp
    qed
  qed
qed

lemma unique_loop_first_seen: "unique_loop ls {} [] = take 10 (first_seen ls)"
  using unique_loop_take [of "[]" ls "{}"] by (simp add: first_seen_def)

lemma first_seen_snoc:
  "first_seen (ls @ [l]) = first_seen ls @ (if href l \<notin> href ` set ls then [l] else [])"
proof -
  define f where "f = (\<lambda>(xs :: link list) i.
    if href (xs ! i) \<notin> href ` set (take i xs) then [xs ! i] else [])"
  have fs: "first_seen xs = concat (map (f xs) [0..<length xs])" for xs
    by (simp add: first_seen_def f_def)
  have "f (ls @ [l]) i = f ls i" if "i < length ls" for i
    using that by (simp add: f_def nth_append)
  then have same: "map (f (ls @ [l])) [0..<length ls] = map (f ls) [0..<length ls]"
    by simp
  have last: "f (ls @ [l]) (length ls) = (if href l \<notin> href ` set ls then [l] else [])"
    by (simp add: f_def)
  have "first_seen (ls @ [l]) = concat (map (f (ls @ [l])) [0..<length ls]) @ f (ls @ [l]) (length ls)"
    by (simp add: fs)
  then show ?thesis
    by (simp only: same last fs)
qed

lemma first_seen_Nil: "first_seen [] = []"
  by (simp add: first_seen_def)

lemma href_first_seen: "href ` set (first_seen ls) = href ` set ls"
  by (induction ls rule: rev_induct) (auto simp: first_seen_Nil first_seen_snoc)

lemma distinct_first_seen: "distinct (map href (first_seen ls))"
proof (induction ls rule: rev_induct)
  case Nil
  show ?case by (simp add: first_seen_Nil)
next
  case (snoc l ls)
  then show ?case
    using href_first_seen [of ls] by (auto simp: first_seen_snoc)
qed

lemma subseq_first_seen: "subseq (first_seen ls) ls"
proof (induction ls rule: rev_induct)
  case Nil
  show ?case by (simp add: first_seen_Nil)
next
  case (snoc l ls)
  show ?case
  proof (cases "href l \<notin> href ` set ls")
    case True
    with snoc show ?thesis
      by (simp add: first_seen_snoc list_emb_append_mono)
  next
    case False
    with snoc show ?thesis
      by (simp add: first_seen_snoc list_emb_prefix)
  qed
qed

lemma first_seen_first_occurrence:
  assumes "l \<in> set (first_seen ls)"
  shows "\<exists>i<length ls. ls ! i = l \<and> (\<forall>j<i. href (ls ! j) \<noteq> href l)"
proof -
  from assms obtain i where i: "i < length ls" and l: "l = ls ! i"
    and n: "href (ls ! i) \<notin> href ` set (take i ls)"
    by (auto simp: first_seen_def split: if_splits)
  have "href (ls ! j) \<noteq> href l" if "j < i" for j
  proof -
    from that i have "ls ! j \<in> set (take i ls)"
      by (metis in_set_conv_nth length_take min.absorb2 less_imp_le nth_take)
    then have "href (ls ! j) \<in> href ` set (take i ls)"
      by (rule imageI)
    with n l show ?thesis by auto
  qed
  with i l show ?thesis by blast
qed

lemma extractData_result:
  "extractData resolve html b =
     Inr \<lparr>title = (case find_match titleRe (length html) html of
                      None \<Rightarrow> None
                    | Some (start, after, caps) \<Rightarrow> Some (stripTags (capture caps 1))),
          headings = map (\<lambda>caps. stripTags (capture caps 2)) (take 5 (matches_from hRegex html 0)),
          links = take 10 (first_seen
                    (take 50 (List.map_filter (entry resolve b) (matches_from aRegex html 0))))\<rparr>"
  using headings_loop_collects [of html 0 "[]"]
  by (simp add: extractData_def links_loop_result unique_loop_first_seen take_map)

subsection \<open>The shape of a heading match\<close>




lemma canonicalize_H: "canonicalize True 0x48 = canonicalize True 0x68"
  by (simp add: canonicalize_def)











subsection \<open>What \<open>stripTags\<close> leaves\<close>



























subsection \<open>Matching a document of many anchors\<close>

lemmas class_defs = notGt_def anyUnit_def digit123_def quoteUnit_def hrefUnit_def isWhiteSpace_def

lemma match_bad_anchor:
  "matchHere True n (pattern aRegex) (js ''<a href=http://[></a>'' @ rest) [] [] =
     Some (rest, [(3, []), (2, js ''http://[''), (1, [])])"
  by (simp add: aRegex_def lit_def js_def class_defs canonicalize_def capture_def Let_def)

lemma match_good_anchor:
  "matchHere True n (pattern aRegex) (js ''<a href=/a></a>'' @ rest) [] [] =
     Some (rest, [(3, []), (2, js ''/a''), (1, [])])"
  by (simp add: aRegex_def lit_def js_def class_defs canonicalize_def capture_def Let_def)

lemma find_match_here:
  "matchHere (ignoreCase re) n (pattern re) xs [] [] = Some (after, caps) \<Longrightarrow>
     find_match re n xs = Some (xs, after, caps)"
  by (cases xs) auto

lemma drop_to_suffix: "drop i s = a @ rest \<Longrightarrow> drop (length s - length rest) s = rest"
proof -
  assume d: "drop i s = a @ rest"
  have "s = take i s @ a @ rest"
    using d by (metis append_take_drop_id)
  then have "s = (take i s @ a) @ rest" by simp
  then show ?thesis
    by (metis add_diff_cancel_right' append_eq_conv_conj length_append)
qed

lemma matches_from_step:
  assumes "i \<le> length s" and "drop i s = a @ rest"
    and "matchHere True (length s) (pattern aRegex) (a @ rest) [] [] = Some (rest, caps)"
  shows "matches_from aRegex s i = caps # matches_from aRegex s (length s - length rest)"
proof -
  have "ignoreCase aRegex = True" by (simp add: aRegex_def)
  with assms(3) have "find_match aRegex (length s) (a @ rest) = Some (a @ rest, rest, caps)"
    by (intro find_match_here) simp
  with assms(1,2) have "exec aRegex s i = Some (caps, length s - length rest)"
    by (simp add: exec_def)
  then show ?thesis
    by (subst matches_from_aRegex) simp
qed

lemma matches_from_end: "matches_from aRegex s (length s) = []"
  by (subst matches_from_aRegex) (simp add: exec_def aRegex_def)

lemma matches_from_bad_anchors:
  "i \<le> length s \<Longrightarrow>
   drop i s = concat (replicate k (js ''<a href=http://[></a>'')) @ rest \<Longrightarrow>
   matches_from aRegex s i =
     replicate k [(3, []), (2, js ''http://[''), (1, [])] @
     matches_from aRegex s (length s - length rest)"
proof (induction k arbitrary: i)
  case 0
  then have "length s - length rest = i"
    by (metis append_Nil concat.simps(1) diff_diff_cancel length_drop replicate_0)
  then show ?case by simp
next
  case (Suc k)
  let ?r = "concat (replicate k (js ''<a href=http://[></a>'')) @ rest"
  from Suc.prems(2) have d: "drop i s = js ''<a href=http://[></a>'' @ ?r"
    by simp
  have "matches_from aRegex s i =
      [(3, []), (2, js ''http://[''), (1, [])] # matches_from aRegex s (length s - length ?r)"
    using Suc.prems(1) d by (rule matches_from_step) (rule match_bad_anchor)
  moreover have "drop (length s - length ?r) s = ?r"
    using d by (rule drop_to_suffix)
  then have "matches_from aRegex s (length s - length ?r) =
      replicate k [(3, []), (2, js ''http://[''), (1, [])] @
      matches_from aRegex s (length s - length rest)"
    by (intro Suc.IH) simp_all
  ultimately show ?case by simp
qed

lemma matches_from_51:
  "matches_from aRegex
     (concat (replicate 50 (js ''<a href=http://[></a>'')) @ js ''<a href=/a></a>'') 0 =
   replicate 50 [(3, []), (2, js ''http://[''), (1, [])] @ [[(3, []), (2, js ''/a''), (1, [])]]"
proof -
  define g where "g = js ''<a href=/a></a>''"
  define s where "s = concat (replicate 50 (js ''<a href=http://[></a>'')) @ g"
  define cb :: captures where "cb = [(3, []), (2, js ''http://[''), (1, [])]"
  define cg :: captures where "cg = [(3, []), (2, js ''/a''), (1, [])]"
  have 1: "matches_from aRegex s 0 = replicate 50 cb @ matches_from aRegex s (length s - length g)"
    unfolding cb_def by (rule matches_from_bad_anchors) (simp_all add: s_def)
  have len: "length s - length g \<le> length s"
    by simp
  have d: "drop (length s - length g) s = g @ []"
    by (simp add: s_def)
  have "matchHere True (length s) (pattern aRegex) (g @ []) [] [] = Some ([], cg)"
    unfolding g_def cg_def by (rule match_good_anchor)
  with len d
  have 2: "matches_from aRegex s (length s - length g) =
      cg # matches_from aRegex s (length s - length ([] :: jsstring))"
    by (rule matches_from_step)
  have 3: "matches_from aRegex s (length s - length ([] :: jsstring)) = []"
    by (simp add: matches_from_end)
  have "matches_from aRegex s 0 = replicate 50 cb @ [cg]"
    by (simp only: 1 2 3)
  then show ?thesis
    unfolding s_def g_def cb_def cg_def .
qed


subsection \<open>Claim C5: the links are first-seen-only, in order, at most ten\<close>

text \<open>
  Claim C5. Extraction returns a result whose links are the first ten entries of the
  first-seen-only filter of the collected links, compared by exact equality of the resolved
  \<open>href\<close>. So there are at most ten, their \<open>href\<close>s differ from one another, they stand in
  the order of the collected links, and each is the first collected entry with its \<open>href\<close>:
  when two anchors share a resolved \<open>href\<close>, the text of the first one survives.
\<close>

theorem C5_links_first_seen_capped:
  "\<exists>collected r.
     links_loop resolve html b 0 [] = Inr collected \<and>
     extractData resolve html b = Inr r \<and>
     links r = take 10 (first_seen collected) \<and>
     length (links r) \<le> 10 \<and>
     distinct (map href (links r)) \<and>
     subseq (links r) collected \<and>
     (\<forall>l\<in>set (links r). \<exists>i<length collected. collected ! i = l \<and>
        (\<forall>j<i. href (collected ! j) \<noteq> href l))"
proof -
  let ?c = "take 50 (List.map_filter (entry resolve b) (matches_from aRegex html 0))"
  let ?u = "take 10 (first_seen ?c)"
  have "distinct (map href ?u)"
    using distinct_first_seen [of ?c] by (simp add: take_map [symmetric])
  moreover have "subseq ?u (first_seen ?c)"
    by (metis append_take_drop_id list_emb_prefix subseq_order.order_refl)
  then have "subseq ?u ?c"
    using subseq_first_seen [of ?c] by (rule subseq_order.order_trans)
  moreover have "\<exists>i<length ?c. ?c ! i = l \<and> (\<forall>j<i. href (?c ! j) \<noteq> href l)"
    if "l \<in> set ?u" for l
    using that by (intro first_seen_first_occurrence) (rule in_set_takeD)
  ultimately show ?thesis
    by (simp add: links_loop_result extractData_result)
qed

text \<open>
  C5 at a page with two anchors for \<open>/a\<close>: the text of the first one is kept.
\<close>

theorem C5_links_first_seen_capped_witness:
  "\<exists>r. extractData sample_resolve
         (js ''<a href=/a>first</a><a href=\"/a\">second</a><a href=/b>third</a>'')
         (js ''https://example.com'') = Inr r \<and>
       links r = [\<lparr>href = js ''https://example.com/a'', linkText = js ''first''\<rparr>,
                  \<lparr>href = js ''https://example.com/b'', linkText = js ''third''\<rparr>] \<and>
       length (links r) \<le> 10 \<and> distinct (map href (links r))"
proof -
  let ?html = "js ''<a href=/a>first</a><a href=\"/a\">second</a><a href=/b>third</a>''"
  let ?b = "js ''https://example.com''"
  have e: "extractData sample_resolve ?html ?b =
      Inr \<lparr>title = None, headings = [],
           links = [\<lparr>href = js ''https://example.com/a'', linkText = js ''first''\<rparr>,
                    \<lparr>href = js ''https://example.com/b'', linkText = js ''third''\<rparr>]\<rparr>"
    by code_simp
  from C5_links_first_seen_capped [of sample_resolve ?html ?b]
  obtain r where "extractData sample_resolve ?html ?b = Inr r"
    and "length (links r) \<le> 10" and "distinct (map href (links r))"
    by blast
  with e show ?thesis by auto
qed


subsection \<open>Claim C6: at most five headings, each a matched element of one level\<close>




subsection \<open>Claim C7: the bound of fifty\<close>

text \<open>
  Claim C7, as stated, fails: scanning does not stop after fifty candidates have been
  examined. The loop tests the number of collected links, and a candidate whose reference
  does not resolve is not collected. In a page with fifty anchors that do not resolve and
  one that does, the fifty-first anchor is examined, and its link is collected; among the
  first fifty candidates there is no link at all.
\<close>

theorem C7_fifty_examined_counterexample:
  "links_loop sample_resolve
     (concat (replicate 50 (js ''<a href=http://[></a>'')) @ js ''<a href=/a></a>'')
     (js ''https://example.com'') 0 [] =
     Inr [\<lparr>href = js ''https://example.com/a'', linkText = []\<rparr>] \<and>
   List.map_filter (entry sample_resolve (js ''https://example.com''))
     (take 50 (matches_from aRegex
        (concat (replicate 50 (js ''<a href=http://[></a>'')) @ js ''<a href=/a></a>'') 0)) = []"
proof -
  define s where "s = concat (replicate 50 (js ''<a href=http://[></a>'')) @ js ''<a href=/a></a>''"
  define b where "b = js ''https://example.com''"
  define cb :: captures where "cb = [(3, []), (2, js ''http://[''), (1, [])]"
  define cg :: captures where "cg = [(3, []), (2, js ''/a''), (1, [])]"
  define l where "l = \<lparr>href = js ''https://example.com/a'', linkText = []\<rparr>"
  have m: "matches_from aRegex s 0 = replicate 50 cb @ [cg]"
    unfolding s_def cb_def cg_def by (rule matches_from_51)
  have bad: "entry sample_resolve b cb = None"
    by (simp add: entry_def sample_resolve_def capture_def cb_def)
  have "stripTags [] = []"
    by code_simp
  then have good: "entry sample_resolve b cg = Some l"
    by (simp add: entry_def sample_resolve_def capture_def js_def cg_def b_def l_def)
  have mf1: "List.map_filter (entry sample_resolve b) (replicate 50 cb @ [cg]) = [l]"
    by (simp add: List.map_filter_def bad good)
  have mf2: "List.map_filter (entry sample_resolve b) (replicate 50 cb) = []"
    by (simp add: List.map_filter_def bad)
  have "links_loop sample_resolve s b 0 [] =
      Inr ([] @ take (50 - length ([] :: link list))
        (List.map_filter (entry sample_resolve b) (matches_from aRegex s 0)))"
    by (rule links_loop_collects)
  then have "links_loop sample_resolve s b 0 [] = Inr [l] \<and>
      List.map_filter (entry sample_resolve b) (take 50 (matches_from aRegex s 0)) = []"
    by (simp add: m mf1 mf2)
  then show ?thesis
    unfolding s_def b_def l_def .
qed

text \<open>
  Claim C7, amended. Scanning stops once fifty links have been collected: the collected
  links are the first fifty entries that the candidates give, in document order, where a
  candidate whose reference does not resolve gives none. At most fifty links are collected,
  however many of them survive the removal of duplicates.
\<close>

theorem C7_fifty_links_collected:
  "\<exists>collected.
     links_loop resolve html b 0 [] = Inr collected \<and>
     collected = take 50 (List.map_filter (entry resolve b) (matches_from aRegex html 0)) \<and>
     length collected \<le> 50"
  by (simp add: links_loop_result)

text \<open>
  The amended C7 at a page of two anchors, the first of which does not resolve.
\<close>

theorem C7_fifty_links_collected_witness:
  "\<exists>collected.
     links_loop sample_resolve
       (js ''<a href=http://[>x</a><a href=/a>y</a>'') (js ''https://example.com'') 0 [] =
       Inr collected \<and>
     collected = [\<lparr>href = js ''https://example.com/a'', linkText = js ''y''\<rparr>] \<and>
     length collected \<le> 50"
proof -
  let ?html = "js ''<a href=http://[>x</a><a href=/a>y</a>''"
  let ?b = "js ''https://example.com''"
  have e: "links_loop sample_resolve ?html ?b 0 [] =
      Inr [\<lparr>href = js ''https://example.com/a'', linkText = js ''y''\<rparr>]"
    by code_simp
  from C7_fifty_links_collected [of sample_resolve ?html ?b]
  obtain collected where "links_loop sample_resolve ?html ?b 0 [] = Inr collected"
    and "length collected \<le> 50"
    by blast
  with e show ?thesis by auto
qed


subsection \<open>Claim C9: extraction never raises\<close>

text \<open>
  Claim C9. For every markup, base and URL resolution, extraction returns a result and
  throws nothing. When the reference of an anchor match does not resolve, the loop goes on
  from the end of that match with the links it had: no entry is produced and the later
  anchors are still read. Without a title match the title is absent, without a heading
  match there are no headings, without an anchor match there are no links.
\<close>

theorem C9_extract_never_raises:
  "\<exists>r. extractData resolve html b = Inr r \<and>
     (\<forall>i ls caps j e.
        exec aRegex html i = Some (caps, j) \<and> length ls < 50 \<and>
        resolve (capture caps 2) b = Inl e \<longrightarrow>
        links_loop resolve html b i ls = links_loop resolve html b j ls) \<and>
     (find_match titleRe (length html) html = None \<longrightarrow> title r = None) \<and>
     (exec hRegex html 0 = None \<longrightarrow> headings r = []) \<and>
     (exec aRegex html 0 = None \<longrightarrow> links r = [])"
proof -
  have "matches_from hRegex html 0 = []" if "exec hRegex html 0 = None"
    using that by (simp add: matches_from_Nil_iff)
  moreover have "matches_from aRegex html 0 = []" if "exec aRegex html 0 = None"
    using that by (simp add: matches_from_Nil_iff)
  ultimately show ?thesis
    using links_loop_skip [of html _ _ _ _ resolve b]
    by (simp add: extractData_result List.map_filter_simps first_seen_Nil)
qed

text \<open>
  C9 at a page whose first anchor does not resolve, and at a text without markup.
\<close>

theorem C9_extract_never_raises_witness:
  "(\<exists>r. extractData sample_resolve (js ''<a href=http://[>bad</a><a href=/ok>good</a>'')
          (js ''https://example.com'') = Inr r \<and>
        links r = [\<lparr>href = js ''https://example.com/ok'', linkText = js ''good''\<rparr>]) \<and>
   links_loop sample_resolve (js ''<a href=http://[>bad</a><a href=/ok>good</a>'')
     (js ''https://example.com'') 0 [] =
   links_loop sample_resolve (js ''<a href=http://[>bad</a><a href=/ok>good</a>'')
     (js ''https://example.com'') 24 [] \<and>
   (\<exists>r. extractData sample_resolve (js ''no markup < here'') (js ''https://example.com'') = Inr r \<and>
        title r = None \<and> headings r = [] \<and> links r = [])"
proof -
  let ?html = "js ''<a href=http://[>bad</a><a href=/ok>good</a>''"
  let ?plain = "js ''no markup < here''"
  let ?b = "js ''https://example.com''"
  have e1: "extractData sample_resolve ?html ?b =
      Inr \<lparr>title = None, headings = [],
           links = [\<lparr>href = js ''https://example.com/ok'', linkText = js ''good''\<rparr>]\<rparr>"
    by code_simp
  have x: "exec aRegex ?html 0 = Some ([(3, js ''bad''), (2, js ''http://[''), (1, [])], 24)"
    by code_simp
  have f: "sample_resolve (capture [(3, js ''bad''), (2, js ''http://[''), (1, [])] 2) ?b =
      Inl (Exn (js ''Invalid URL''))"
    by (simp add: sample_resolve_def capture_def)
  have n: "find_match titleRe (length ?plain) ?plain = None" "exec hRegex ?plain 0 = None"
    "exec aRegex ?plain 0 = None"
    by code_simp+
  from C9_extract_never_raises [of sample_resolve ?html ?b] x f
  have skip: "links_loop sample_resolve ?html ?b 0 [] = links_loop sample_resolve ?html ?b 24 []"
    by (metis length_greater_0_conv list.size(3) zero_less_numeral)
  from C9_extract_never_raises [of sample_resolve ?plain ?b] n
  obtain r where "extractData sample_resolve ?plain ?b = Inr r"
    "title r = None" "headings r = []" "links r = []"
    by blast
  with e1 skip show ?thesis by auto
qed


section \<open>Properties of the request handler\<close>





subsection \<open>Claim C10: the path that is tested\<close>



end
